theory Spec2Isabelle
  imports Main "HOL-Library.Word" "HOL-Library.Signed_Division"
begin

section \<open>Characters and the standard-library conversions used by runtime.h\<close>

text \<open>
  A C++ \<open>char\<close> is a byte; it is modelled by the 8-bit type \<open>char\<close>, read through
  \<open>of_char\<close>.  The two character tests of runtime.h compare against character
  literals: \<open>'-'\<close> is 45, \<open>'+'\<close> is 43, \<open>'0'\<close> is 48 and \<open>'9'\<close> is 57.
\<close>

definition is_sign :: "char \<Rightarrow> bool" where
  "is_sign x = (x = CHR ''-'' \<or> x = CHR ''+'')"

definition is_digit :: "char \<Rightarrow> bool" where
  "is_digit x = ((48::nat) \<le> of_char x \<and> of_char x \<le> (57::nat))"

text \<open>
  Failures of the codec.  An \<open>assert\<close> that does not hold aborts the process
  (\<open>Assertion_failed\<close>; the model is of a build with assertions enabled, that is,
  without \<open>NDEBUG\<close>); \<open>std::stoull\<close> and \<open>std::stoll\<close> throw
  \<open>std::invalid_argument\<close> when no digit can be converted and \<open>std::out_of_range\<close>
  when the digits denote a value outside the 64-bit result type.  The exceptions can be
  caught by a caller, the abort cannot.
\<close>

datatype codec_error = Assertion_failed | Invalid_argument | Out_of_range

definition recoverable :: "codec_error \<Rightarrow> bool" where
  "recoverable e = (e \<noteq> Assertion_failed)"

text \<open>\<open>std::to_string\<close> on an unsigned 64-bit value: the decimal digits, most
  significant first, without leading zeros.\<close>

definition digit_char :: "nat \<Rightarrow> char" where
  "digit_char d = char_of (48 + d)"

function to_string :: "nat \<Rightarrow> string" where
  "to_string n = (if n < 10 then [digit_char n]
                  else to_string (n div 10) @ [digit_char (n mod 10)])"
  by pat_completeness auto
termination
  by (relation "measure (\<lambda>n. n)") auto

declare to_string.simps [simp del]

text \<open>\<open>std::to_string\<close> on a signed 64-bit value: a minus sign before the digits of
  the magnitude when the value is negative.\<close>

definition to_string_signed :: "int \<Rightarrow> string" where
  "to_string_signed i = (if i < 0 then CHR ''-'' # to_string (nat (- i)) else to_string (nat i))"

text \<open>
  \<open>std::stoull\<close> and \<open>std::stoll\<close> in base 10 (they call \<open>strtoull\<close> and
  \<open>strtoll\<close>): leading white space is skipped, one sign character is accepted, then
  the longest run of decimal digits is converted; whatever follows is ignored.
  \<open>strtoull\<close> negates in the unsigned type when the sign is a minus.
\<close>

definition isspace :: "char \<Rightarrow> bool" where
  "isspace x = (of_char x = (32::nat) \<or> ((9::nat) \<le> of_char x \<and> of_char x \<le> (13::nat)))"

definition digit_val :: "char \<Rightarrow> nat" where
  "digit_val x = of_char x - 48"

definition dec_value :: "string \<Rightarrow> nat" where
  "dec_value ds = foldl (\<lambda>acc c. 10 * acc + digit_val c) 0 ds"

definition ULLONG_MAX :: nat where
  "ULLONG_MAX = 18446744073709551615"

definition LLONG_MAX :: int where
  "LLONG_MAX = 9223372036854775807"

definition LLONG_MIN :: int where
  "LLONG_MIN = - 9223372036854775808"

definition strip_sign :: "string \<Rightarrow> string" where
  "strip_sign t = (if t \<noteq> [] \<and> is_sign (hd t) then tl t else t)"

definition has_minus :: "string \<Rightarrow> bool" where
  "has_minus t = (t \<noteq> [] \<and> hd t = CHR ''-'')"

definition stoull :: "string \<Rightarrow> codec_error + nat" where
  "stoull s =
     (let t = dropWhile isspace s;
          ds = takeWhile is_digit (strip_sign t)
      in if ds = [] then Inl Invalid_argument
         else if ULLONG_MAX < dec_value ds then Inl Out_of_range
         else if has_minus t then Inr ((2 ^ 64 - dec_value ds) mod 2 ^ 64)
         else Inr (dec_value ds))"

definition stoll :: "string \<Rightarrow> codec_error + int" where
  "stoll s =
     (let t = dropWhile isspace s;
          ds = takeWhile is_digit (strip_sign t);
          v = (if has_minus t then - int (dec_value ds) else int (dec_value ds))
      in if ds = [] then Inl Invalid_argument
         else if v < LLONG_MIN \<or> LLONG_MAX < v then Inl Out_of_range
         else Inr v)"

section \<open>runtime.h: 128-bit integers to and from decimal text\<close>

text \<open>
  Modelled from the spec: the types \<open>uint128_t\<close> and \<open>int128_t\<close> are declared in
  dessser/typedefs.h, which is not among the sources.  The specification gives the
  unsigned range as \<open>0\<close> to \<open>2 ^ 128 - 1\<close> and the signed range as \<open>- 2 ^ 127\<close> to
  \<open>2 ^ 127 - 1\<close>, held as native wide integers.  A \<open>uint128_t\<close> is modelled by a
  natural number below \<open>2 ^ 128\<close> and an \<open>int128_t\<close> by an integer of the signed
  range.  Arithmetic that can leave the range is reduced explicitly: \<open>u128\<close> is the
  unsigned wrap-around.  C++ leaves signed overflow undefined; \<open>s128\<close> is the two's
  complement wrap-around that the machine arithmetic produces.  No result below
  depends on \<open>s128\<close> outside the signed range.
\<close>

definition u128 :: "nat \<Rightarrow> nat" where
  "u128 n = n mod 2 ^ 128"

definition s128 :: "int \<Rightarrow> int" where
  "s128 i = (i + 2 ^ 127) mod 2 ^ 128 - 2 ^ 127"

definition UINT64_MAX :: nat where
  "UINT64_MAX = 18446744073709551615"

definition P10_UINT64 :: nat where
  "P10_UINT64 = 10000000000000000000"

definition E10_UINT64 :: nat where
  "E10_UINT64 = 19"

function string_of_u128 :: "nat \<Rightarrow> string" where
  "string_of_u128 u =
     (if u \<le> UINT64_MAX then to_string u
      else let hi = u div P10_UINT64;
               lo = u mod P10_UINT64;
               ss = to_string lo;
               num_zeros = E10_UINT64 - length ss
           in string_of_u128 hi @ replicate num_zeros CHR ''0'' @ ss)"
  by pat_completeness auto
termination
  by (relation "measure (\<lambda>u. u)") (auto simp: UINT64_MAX_def P10_UINT64_def)

declare string_of_u128.simps [simp del]

function u128_of_string :: "string \<Rightarrow> codec_error + nat" where
  "u128_of_string s =
     (if \<not> 0 < length s then Inl Assertion_failed
      else if length s \<le> E10_UINT64 then stoull s
      else case u128_of_string (take (length s - E10_UINT64) s) of
             Inl e \<Rightarrow> Inl e
           | Inr hi \<Rightarrow>
               (case u128_of_string (take E10_UINT64 (drop (length s - E10_UINT64) s)) of
                  Inl e \<Rightarrow> Inl e
                | Inr lo \<Rightarrow> Inr (u128 (u128 (hi * P10_UINT64) + lo))))"
  by pat_completeness auto
termination
  by (relation "measure length") (auto simp: E10_UINT64_def)

declare u128_of_string.simps [simp del]

definition INT64_MIN :: int where
  "INT64_MIN = - 9223372036854775808"

definition INT64_MAX :: int where
  "INT64_MAX = 9223372036854775807"

definition P10_INT64 :: int where
  "P10_INT64 = 1000000000000000000"

definition E10_INT64 :: nat where
  "E10_INT64 = 18"

text \<open>C++ division and remainder on signed integers truncate towards zero: they are
  \<open>sdiv\<close> and \<open>smod\<close>, not \<open>div\<close> and \<open>mod\<close>.\<close>

function string_of_i128 :: "int \<Rightarrow> string" where
  "string_of_i128 i =
     (if INT64_MIN \<le> i \<and> i \<le> INT64_MAX then to_string_signed i
      else let hi = i sdiv P10_INT64;
               lo = i smod P10_INT64;
               ss = to_string_signed \<bar>lo\<bar>;
               num_zeros = E10_INT64 - length ss
           in string_of_i128 hi @ replicate num_zeros CHR ''0'' @ ss)"
  by pat_completeness auto
termination
proof (relation "measure (\<lambda>i. nat \<bar>i\<bar>)")
  show "wf (measure (\<lambda>i. nat \<bar>i\<bar>))" by simp
next
  fix i :: int and hi :: int
  assume out: "\<not> (INT64_MIN \<le> i \<and> i \<le> INT64_MAX)" and hi: "hi = i sdiv P10_INT64"
  from out have pos: "0 < \<bar>i\<bar>" by (auto simp: INT64_MIN_def INT64_MAX_def)
  have "\<bar>hi\<bar> = \<bar>i\<bar> div 1000000000000000000"
    using pos by (simp add: hi signed_divide_int_def P10_INT64_def abs_mult abs_sgn_eq)
  also have "\<dots> < \<bar>i\<bar>" using int_div_less_self [OF pos, of 1000000000000000000] by simp
  finally show "(hi, i) \<in> measure (\<lambda>i. nat \<bar>i\<bar>)" by simp
qed

declare string_of_i128.simps [simp del]

function i128_of_string :: "string \<Rightarrow> codec_error + int" where
  "i128_of_string s =
     (if \<not> 0 < length s then Inl Assertion_failed
      else if length s \<le> E10_INT64 + (if is_sign (s ! 0) then 1 else 0) then stoll s
      else case i128_of_string (take (length s - E10_INT64) s) of
             Inl e \<Rightarrow> Inl e
           | Inr hi \<Rightarrow>
               (case i128_of_string (take E10_INT64 (drop (length s - E10_INT64) s)) of
                  Inl e \<Rightarrow> Inl e
                | Inr lo \<Rightarrow>
                    Inr (if 0 \<le> hi then s128 (s128 (hi * P10_INT64) + lo)
                         else s128 (s128 (hi * P10_INT64) - lo))))"
  by pat_completeness auto
termination
  by (relation "measure length") (auto simp: E10_INT64_def split: if_splits)

declare i128_of_string.simps [simp del]

text \<open>
  The incremental parsers take a character range \<open>[start, stop)\<close>; the model takes
  the characters of the range, so that \<open>start[count]\<close> is \<open>r ! count\<close> and
  \<open>start + count < stop\<close> is \<open>count < length r\<close>.  The \<open>for\<close> loop that advances
  \<open>count\<close> over digits is \<open>scan_digits\<close>.  The result pairs the returned count with
  the value stored through \<open>res\<close>.
\<close>

function scan_digits :: "string \<Rightarrow> nat \<Rightarrow> nat" where
  "scan_digits r count =
     (if count < length r \<and> is_digit (r ! count) then scan_digits r (count + 1) else count)"
  by pat_completeness auto
termination
  by (relation "measure (\<lambda>(r, count). length r - count)") auto

declare scan_digits.simps [simp del]

definition i128_from_chars :: "string \<Rightarrow> codec_error + (nat \<times> int)" where
  "i128_from_chars r =
     (if \<not> 0 < length r then Inl Assertion_failed
      else let count = scan_digits r (if is_sign (r ! 0) then 1 else 0)
           in if \<not> 0 < count then Inl Assertion_failed
              else case i128_of_string (take count r) of
                     Inl e \<Rightarrow> Inl e
                   | Inr v \<Rightarrow> Inr (count, v))"

text \<open>In \<open>u128_from_chars\<close> the initialiser of the \<open>for\<close> statement assigns \<open>0\<close> to
  \<open>count\<close>, so the value computed from \<open>is_sign\<close> on the line before is overwritten
  before the loop starts.  The result of \<open>i128_of_string\<close> is converted to
  \<open>uint128_t\<close>, that is, reduced modulo \<open>2 ^ 128\<close>.\<close>

definition uint128_of_int128 :: "int \<Rightarrow> nat" where
  "uint128_of_int128 i = nat (i mod 2 ^ 128)"

definition u128_from_chars :: "string \<Rightarrow> codec_error + (nat \<times> nat)" where
  "u128_from_chars r =
     (if \<not> 0 < length r then Inl Assertion_failed
      else let count0 = (if is_sign (r ! 0) then 1 else 0 :: nat);
               count = scan_digits r 0
           in if \<not> 0 < count then Inl Assertion_failed
              else case i128_of_string (take count r) of
                     Inl e \<Rightarrow> Inl e
                   | Inr v \<Rightarrow> Inr (count, uint128_of_int128 v))"

section \<open>Bytes.h: a view on shared bytes\<close>

text \<open>
  Modelled from the spec: the type \<open>Byte\<close> is declared in dessser/typedefs.h, which is
  not among the sources; the specification calls the storage a byte array.  A \<open>Byte\<close>
  is an 8-bit unit that \<open>memcpy\<close> moves unchanged to and from the \<open>char\<close>s of a
  \<open>std::string\<close>.  The shared array is modelled by the list of its bytes, whose length
  is the capacity of the allocation.  Views are never mutated, so sharing the array
  between views cannot be observed and each view carries the list.  The field \<open>size\<close>
  is named \<open>size_b\<close>.
\<close>

type_synonym Byte = char

record Bytes =
  buffer :: "Byte list"
  size_b :: nat
  offset :: nat

text \<open>The three-argument constructor stores its arguments.\<close>

definition Bytes_of_buffer :: "Byte list \<Rightarrow> nat \<Rightarrow> nat \<Rightarrow> Bytes" where
  "Bytes_of_buffer buffer' size' offset' = \<lparr>buffer = buffer', size_b = size', offset = offset'\<rparr>"

text \<open>The constructor from a \<open>std::string\<close> allocates \<open>s.size()\<close> bytes and copies
  the characters of \<open>s\<close> into them.\<close>

definition Bytes_of_string :: "string \<Rightarrow> Bytes" where
  "Bytes_of_string s = \<lparr>buffer = s, size_b = length s, offset = 0\<rparr>"

text \<open>\<open>toString\<close> copies \<open>size\<close> bytes starting at position \<open>offset\<close> of the array.
  Reading a position at or beyond the capacity is outside the allocation and has no
  defined result: \<open>None\<close>.\<close>

definition toString :: "Bytes \<Rightarrow> string option" where
  "toString b =
     (if offset b + size_b b \<le> length (buffer b)
      then Some (map (\<lambda>i. buffer b ! (offset b + i)) [0..<size_b b])
      else None)"

section \<open>SimpleSet.h and SlidingWindow.h: the two implementations of Set\<close>

text \<open>
  Both structures hold one \<open>std::list\<close>, from oldest to youngest.  \<open>insert\<close> is
  \<open>push_back\<close>.  \<open>lastUpdate\<close> is a \<open>const\<close> member: it returns \<open>l.back()\<close> with an
  empty list and leaves the structure as it is; \<open>back()\<close> of an empty list has no
  defined result: \<open>None\<close>.  \<open>size\<close> returns \<open>l.size()\<close> converted to \<open>uint32_t\<close>,
  that is, reduced modulo \<open>2 ^ 32\<close>.
\<close>

datatype 'a SimpleSet = SimpleSet (SimpleSet_l: "'a list")

definition SimpleSet_new :: "'a SimpleSet" where
  "SimpleSet_new = SimpleSet []"

definition SimpleSet_insert :: "'a SimpleSet \<Rightarrow> 'a \<Rightarrow> 'a SimpleSet" where
  "SimpleSet_insert s x = SimpleSet (SimpleSet_l s @ [x])"

definition SimpleSet_lastUpdate :: "'a SimpleSet \<Rightarrow> ('a \<times> 'a list) option" where
  "SimpleSet_lastUpdate s =
     (if SimpleSet_l s = [] then None else Some (last (SimpleSet_l s), []))"

definition SimpleSet_size :: "'a SimpleSet \<Rightarrow> nat" where
  "SimpleSet_size s = length (SimpleSet_l s) mod 2 ^ 32"

datatype 'a SlidingWindow = SlidingWindow (SlidingWindow_l: "'a list")

definition SlidingWindow_new :: "'a SlidingWindow" where
  "SlidingWindow_new = SlidingWindow []"

definition SlidingWindow_insert :: "'a SlidingWindow \<Rightarrow> 'a \<Rightarrow> 'a SlidingWindow" where
  "SlidingWindow_insert s x = SlidingWindow (SlidingWindow_l s @ [x])"

definition SlidingWindow_lastUpdate :: "'a SlidingWindow \<Rightarrow> ('a \<times> 'a list) option" where
  "SlidingWindow_lastUpdate s =
     (if SlidingWindow_l s = [] then None else Some (last (SlidingWindow_l s), []))"

definition SlidingWindow_size :: "'a SlidingWindow \<Rightarrow> nat" where
  "SlidingWindow_size s = length (SlidingWindow_l s) mod 2 ^ 32"

section \<open>Decimal digits: what the conversions compute\<close>

subsection \<open>Digits produced by to_string and their value\<close>

lemma is_digit_digit_char: "d < 10 \<Longrightarrow> is_digit (digit_char d)"
  by (simp add: is_digit_def digit_char_def)

lemma digit_val_digit_char: "d < 10 \<Longrightarrow> digit_val (digit_char d) = d"
  by (simp add: digit_val_def digit_char_def)

lemma digit_char_zero: "digit_char 0 = CHR ''0''"
  by (simp add: digit_char_def char_of_eq_iff)

lemma to_string_nonempty: "to_string n \<noteq> []"
  by (subst to_string.simps) simp

lemma to_string_digits: "list_all is_digit (to_string n)"
proof (induction n rule: to_string.induct)
  case (1 n)
  show ?case
  proof (cases "n < 10")
    case True
    then show ?thesis by (subst to_string.simps) (simp add: is_digit_digit_char)
  next
    case False
    with "1" show ?thesis by (subst to_string.simps) (simp add: is_digit_digit_char)
  qed
qed

lemma dec_value_Nil: "dec_value [] = 0"
  by (simp add: dec_value_def)

lemma dec_value_snoc: "dec_value (ds @ [c]) = 10 * dec_value ds + digit_val c"
  by (simp add: dec_value_def)

lemma dec_value_append: "dec_value (xs @ ys) = dec_value xs * 10 ^ length ys + dec_value ys"
proof (induction ys rule: rev_induct)
  case Nil
  then show ?case by (simp add: dec_value_Nil)
next
  case (snoc y ys)
  have "dec_value (xs @ ys @ [y]) = 10 * dec_value (xs @ ys) + digit_val y"
    using dec_value_snoc [of "xs @ ys" y] by simp
  then show ?case using snoc by (simp add: dec_value_snoc algebra_simps)
qed

lemma dec_value_to_string: "dec_value (to_string n) = n"
proof (induction n rule: to_string.induct)
  case (1 n)
  show ?case
  proof (cases "n < 10")
    case True
    then show ?thesis
      using dec_value_snoc [of "[]" "digit_char n"]
      by (subst to_string.simps) (simp add: dec_value_Nil digit_val_digit_char)
  next
    case False
    with "1" show ?thesis
      by (subst to_string.simps) (simp add: dec_value_snoc digit_val_digit_char)
  qed
qed

lemma dec_value_bound: "list_all is_digit ds \<Longrightarrow> dec_value ds < 10 ^ length ds"
proof (induction ds rule: rev_induct)
  case Nil
  then show ?case by (simp add: dec_value_Nil)
next
  case (snoc c ds)
  then have "dec_value ds < 10 ^ length ds" and "digit_val c \<le> 9"
    by (auto simp: is_digit_def digit_val_def)
  then have "10 * dec_value ds + digit_val c < 10 * 10 ^ length ds" by linarith
  then show ?case by (simp add: dec_value_snoc)
qed


lemma digit_char_numerals:
  "digit_char 0 = CHR ''0''" "digit_char 1 = CHR ''1''" "digit_char 2 = CHR ''2''"
  "digit_char 3 = CHR ''3''" "digit_char 4 = CHR ''4''" "digit_char 5 = CHR ''5''"
  "digit_char 6 = CHR ''6''" "digit_char 7 = CHR ''7''" "digit_char 8 = CHR ''8''"
  "digit_char 9 = CHR ''9''"
  by (simp_all add: digit_char_def char_of_eq_iff)

lemma string_of_u128_small: "u \<le> UINT64_MAX \<Longrightarrow> string_of_u128 u = to_string u"
  by (subst string_of_u128.simps) simp

lemma string_of_u128_large:
  "\<not> u \<le> UINT64_MAX \<Longrightarrow>
   string_of_u128 u =
     string_of_u128 (u div P10_UINT64) @
     replicate (E10_UINT64 - length (to_string (u mod P10_UINT64))) CHR ''0'' @
     to_string (u mod P10_UINT64)"
  by (subst string_of_u128.simps) (simp add: Let_def)

lemma digits_stoull:
  assumes "ds \<noteq> []" "list_all is_digit ds" "dec_value ds \<le> ULLONG_MAX"
  shows "stoull ds = Inr (dec_value ds)"
proof -
  from assms obtain c cs where ds: "ds = c # cs" and c: "is_digit c"
    by (cases ds) auto
  from c have ns: "\<not> isspace c" and nsg: "\<not> is_sign c" and nm: "c \<noteq> CHR ''-''"
    by (auto simp: is_digit_def isspace_def is_sign_def)
  have t: "dropWhile isspace ds = ds" using ds ns by simp
  have u: "strip_sign ds = ds" using ds nsg by (simp add: strip_sign_def)
  have d: "takeWhile is_digit ds = ds" using assms(2) by (simp add: list_all_iff)
  have m: "\<not> has_minus ds" using ds nm by (simp add: has_minus_def)
  show ?thesis using assms(1,3) by (simp add: stoull_def t u d m)
qed

lemma u128_of_string_digits:
  "ds \<noteq> [] \<Longrightarrow> list_all is_digit ds \<Longrightarrow> u128_of_string ds = Inr (u128 (dec_value ds))"
proof (induction ds rule: u128_of_string.induct)
  case (1 s)
  show ?case
  proof (cases "length s \<le> E10_UINT64")
    case True
    have "dec_value s < 10 ^ length s" using "1.prems" by (simp add: dec_value_bound)
    also have "\<dots> \<le> (10::nat) ^ 19"
      using True by (intro power_increasing) (simp_all add: E10_UINT64_def)
    finally have b: "dec_value s < 10 ^ 19" .
    then have "dec_value s \<le> ULLONG_MAX" by (simp add: ULLONG_MAX_def)
    then have "stoull s = Inr (dec_value s)" using "1.prems" by (simp add: digits_stoull)
    moreover have "u128 (dec_value s) = dec_value s" using b by (simp add: u128_def)
    ultimately show ?thesis using True "1.prems"(1) by (subst u128_of_string.simps) simp
  next
    case False
    define h where "h = take (length s - E10_UINT64) s"
    define l where "l = drop (length s - E10_UINT64) s"
    have s: "s = h @ l" by (simp add: h_def l_def)
    have ll: "length l = 19" using False by (simp add: l_def E10_UINT64_def)
    have tl: "take E10_UINT64 l = l" using ll by (simp add: E10_UINT64_def)
    have hne: "h \<noteq> []" using False by (auto simp: h_def E10_UINT64_def)
    have lne: "l \<noteq> []" using ll by auto
    have hd: "list_all is_digit h" and ld: "list_all is_digit l"
      using "1.prems"(2) by (auto simp: h_def l_def list_all_iff dest: in_set_takeD in_set_dropD)
    have len: "0 < length s" using "1.prems"(1) by simp
    have ih: "u128_of_string h = Inr (u128 (dec_value h))"
      using "1.IH"(1) [OF _ False hne [unfolded h_def] hd [unfolded h_def]] len
      by (simp add: h_def)
    have il: "u128_of_string l = Inr (u128 (dec_value l))"
      using "1.IH"(2) [OF _ False ih [unfolded h_def]] len lne ld tl
      by (simp add: l_def)
    have v: "dec_value s = dec_value h * 10 ^ 19 + dec_value l"
      using dec_value_append [of h l] s ll by simp
    have "u128 (u128 (u128 (dec_value h) * P10_UINT64) + u128 (dec_value l)) = u128 (dec_value s)"
      by (simp add: u128_def v P10_UINT64_def mod_simps)
    then show ?thesis
      using False len ih il tl
      by (subst u128_of_string.simps) (simp add: h_def [symmetric] l_def [symmetric])
  qed
qed


lemma to_string_small: "n < 10 \<Longrightarrow> to_string n = [digit_char n]"
  by (subst to_string.simps) simp

lemma to_string_large:
  "\<not> n < 10 \<Longrightarrow> to_string n = to_string (n div 10) @ [digit_char (n mod 10)]"
  by (subst to_string.simps) simp

lemma zero_pad_step:
  assumes "1 \<le> k"
  shows "replicate (Suc k - length (to_string m)) CHR ''0'' @ to_string m =
         (replicate (k - length (to_string (m div 10))) CHR ''0'' @ to_string (m div 10))
           @ [digit_char (m mod 10)]"
proof (cases "m < 10")
  case True
  then have "to_string m = [digit_char m]" and "to_string (m div 10) = [CHR ''0'']"
    by (simp_all add: to_string_small digit_char_zero)
  moreover have "replicate (k - 1) CHR ''0'' @ [CHR ''0''] = replicate k CHR ''0''"
    using assms by (cases k) (simp_all add: replicate_append_same)
  ultimately show ?thesis using True by simp
next
  case False
  then show ?thesis by (simp add: to_string_large)
qed

lemma to_string_split:
  "1 \<le> k \<Longrightarrow> n div 10 ^ k \<noteq> 0 \<Longrightarrow>
   to_string n =
     to_string (n div 10 ^ k) @
     replicate (k - length (to_string (n mod 10 ^ k))) CHR ''0'' @ to_string (n mod 10 ^ k)"
proof (induction k arbitrary: n rule: nat_induct_at_least)
  case base
  then have "\<not> n < 10" by auto
  then show ?case by (simp add: to_string_large to_string_small)
next
  case (Suc k)
  have big: "\<not> n < 10"
  proof
    assume "n < 10"
    also have "(10::nat) \<le> 10 ^ Suc k" by simp
    finally show False using Suc.prems by simp
  qed
  let ?q = "n div 10"
  have q: "?q div 10 ^ k = n div 10 ^ Suc k" by (simp add: div_mult2_eq)
  have m1: "(n mod 10 ^ Suc k) div 10 = ?q mod 10 ^ k"
    by (simp add: mod_mult2_eq)
  have m2: "(n mod 10 ^ Suc k) mod 10 = n mod 10"
    by (simp add: mod_mult2_eq)
  have "to_string n = to_string ?q @ [digit_char (n mod 10)]"
    using big by (rule to_string_large)
  also have "to_string ?q =
      to_string (?q div 10 ^ k) @
      replicate (k - length (to_string (?q mod 10 ^ k))) CHR ''0'' @ to_string (?q mod 10 ^ k)"
    using Suc.prems q by (intro Suc.IH) simp
  finally show ?case
    using zero_pad_step [OF Suc.hyps, of "n mod 10 ^ Suc k"]
    by (simp only: q m1 m2 append_assoc)
qed

lemma string_of_u128_eq: "string_of_u128 u = to_string u"
proof (induction u rule: string_of_u128.induct)
  case (1 u)
  show ?case
  proof (cases "u \<le> UINT64_MAX")
    case True
    then show ?thesis by (rule string_of_u128_small)
  next
    case False
    then have nz: "u div 10 ^ 19 \<noteq> 0" by (simp add: UINT64_MAX_def div_eq_0_iff)
    have "string_of_u128 (u div P10_UINT64) = to_string (u div P10_UINT64)"
      using "1.IH" [OF False refl refl refl refl] .
    then show ?thesis
      using to_string_split [of 19 u, OF _ nz] string_of_u128_large [OF False]
      by (simp add: P10_UINT64_def E10_UINT64_def)
  qed
qed

lemma u128_of_string_string_of_u128:
  "u < 2 ^ 128 \<Longrightarrow> u128_of_string (string_of_u128 u) = Inr u"
  by (simp add: string_of_u128_eq u128_of_string_digits to_string_nonempty to_string_digits
      dec_value_to_string u128_def)

subsection \<open>Signed parsing of digit strings\<close>

lemma s128_id: "- (2 ^ 127) \<le> i \<Longrightarrow> i < 2 ^ 127 \<Longrightarrow> s128 i = i"
  by (simp add: s128_def)

lemma is_digit_not_other:
  "is_digit c \<Longrightarrow> \<not> isspace c \<and> \<not> is_sign c \<and> c \<noteq> CHR ''-''"
  by (auto simp: is_digit_def isspace_def is_sign_def)

lemma digits_stoll:
  assumes "ds \<noteq> []" "list_all is_digit ds" "int (dec_value ds) \<le> LLONG_MAX"
  shows "stoll ds = Inr (int (dec_value ds))"
proof -
  from assms obtain c cs where ds: "ds = c # cs" and c: "is_digit c"
    by (cases ds) auto
  note n = is_digit_not_other [OF c]
  have t: "dropWhile isspace ds = ds" using ds n by simp
  have u: "strip_sign ds = ds" using ds n by (simp add: strip_sign_def)
  have d: "takeWhile is_digit ds = ds" using assms(2) by (simp add: list_all_iff)
  have m: "\<not> has_minus ds" using ds n by (simp add: has_minus_def)
  have "\<not> int (dec_value ds) < LLONG_MIN" by (simp add: LLONG_MIN_def)
  then show ?thesis using assms(1,3) by (simp add: stoll_def t u d m)
qed

lemma minus_digits_stoll:
  assumes "ds \<noteq> []" "list_all is_digit ds" "LLONG_MIN \<le> - int (dec_value ds)"
  shows "stoll (CHR ''-'' # ds) = Inr (- int (dec_value ds))"
proof -
  have sp: "\<not> isspace CHR ''-''" by (simp add: isspace_def)
  have t: "dropWhile isspace (CHR ''-'' # ds) = CHR ''-'' # ds" using sp by simp
  have u: "strip_sign (CHR ''-'' # ds) = ds" by (simp add: strip_sign_def is_sign_def)
  have d: "takeWhile is_digit ds = ds" using assms(2) by (simp add: list_all_iff)
  have m: "has_minus (CHR ''-'' # ds)" by (simp add: has_minus_def)
  have "\<not> LLONG_MAX < - int (dec_value ds)" by (simp add: LLONG_MAX_def)
  then show ?thesis using assms(1,3) sp m by (simp add: stoll_def u d)
qed

lemma i128_of_string_short:
  "0 < length s \<Longrightarrow> length s \<le> E10_INT64 + (if is_sign (s ! 0) then 1 else 0) \<Longrightarrow>
   i128_of_string s = stoll s"
  by (subst i128_of_string.simps) simp

lemma i128_of_string_long:
  assumes "\<not> length s \<le> E10_INT64 + (if is_sign (s ! 0) then 1 else 0)"
    and "i128_of_string (take (length s - E10_INT64) s) = Inr hi"
    and "i128_of_string (drop (length s - E10_INT64) s) = Inr lo"
  shows "i128_of_string s =
         Inr (if 0 \<le> hi then s128 (s128 (hi * P10_INT64) + lo)
              else s128 (s128 (hi * P10_INT64) - lo))"
proof -
  have "take E10_INT64 (drop (length s - E10_INT64) s) = drop (length s - E10_INT64) s"
    by simp
  moreover have "0 < length s" using assms(1) by (auto split: if_splits)
  ultimately show ?thesis
    using assms by (subst i128_of_string.simps) (simp del: take_all_iff)
qed

lemma dec_value_take_le: "dec_value (take k ds) \<le> dec_value ds"
proof -
  have "dec_value ds = dec_value (take k ds) * 10 ^ length (drop k ds) + dec_value (drop k ds)"
    using dec_value_append [of "take k ds" "drop k ds"] by simp
  moreover have "dec_value (take k ds) \<le> dec_value (take k ds) * 10 ^ length (drop k ds)"
    by simp
  ultimately show ?thesis by (simp only: trans_le_add1)
qed

lemma dec_value_split:
  "k \<le> length ds \<Longrightarrow>
   dec_value ds = dec_value (take (length ds - k) ds) * 10 ^ k + dec_value (drop (length ds - k) ds)"
  using dec_value_append [of "take (length ds - k) ds" "drop (length ds - k) ds"] by simp

lemma list_all_take: "list_all P xs \<Longrightarrow> list_all P (take k xs)"
  by (auto simp: list_all_iff dest: in_set_takeD)

lemma list_all_drop: "list_all P xs \<Longrightarrow> list_all P (drop k xs)"
  by (auto simp: list_all_iff dest: in_set_dropD)

lemma dec_value_18: "list_all is_digit ds \<Longrightarrow> length ds \<le> 18 \<Longrightarrow> dec_value ds < 10 ^ 18"
proof -
  assume a: "list_all is_digit ds" and b: "length ds \<le> 18"
  have "dec_value ds < 10 ^ length ds" using a by (rule dec_value_bound)
  also have "\<dots> \<le> (10::nat) ^ 18" using b by (intro power_increasing) simp_all
  finally show ?thesis .
qed

lemma i128_of_string_digits:
  "ds \<noteq> [] \<Longrightarrow> list_all is_digit ds \<Longrightarrow> dec_value ds < 2 ^ 127 \<Longrightarrow>
   i128_of_string ds = Inr (int (dec_value ds))"
proof (induction "length ds" arbitrary: ds rule: less_induct)
  case less
  from less.prems obtain c cs where ds: "ds = c # cs" and c: "is_digit c"
    by (cases ds) auto
  have ns: "\<not> is_sign (ds ! 0)" using ds is_digit_not_other [OF c] by simp
  show ?case
  proof (cases "length ds \<le> 18")
    case True
    have "dec_value ds < 10 ^ 18" using less.prems(2) True by (rule dec_value_18)
    then have "stoll ds = Inr (int (dec_value ds))"
      using less.prems by (intro digits_stoll) (simp_all add: LLONG_MAX_def)
    then show ?thesis
      using True ns less.prems(1) by (simp add: i128_of_string_short E10_INT64_def)
  next
    case False
    let ?h = "take (length ds - 18) ds" and ?l = "drop (length ds - 18) ds"
    have v: "dec_value ds = dec_value ?h * 10 ^ 18 + dec_value ?l"
      using False by (intro dec_value_split) simp
    have hb: "dec_value ?h < 2 ^ 127"
      using dec_value_take_le [of "length ds - 18" ds] less.prems(3) by simp
    have lb: "dec_value ?l < 2 ^ 127"
      using v less.prems(3) by simp
    have ih: "i128_of_string ?h = Inr (int (dec_value ?h))"
      using False less.prems(2) hb by (intro less.hyps) (auto simp: list_all_take)
    have il: "i128_of_string ?l = Inr (int (dec_value ?l))"
      using False less.prems(2) lb by (intro less.hyps) (auto simp: list_all_drop)
    have r: "int (dec_value ?h) * 1000000000000000000 + int (dec_value ?l) = int (dec_value ds)"
      by (simp add: v)
    have "int (dec_value ds) < int (2 ^ 127)" using less.prems(3) by (simp only: of_nat_less_iff)
    then have b2: "int (dec_value ds) < 2 ^ 127" by simp
    have b1: "int (dec_value ?h) * 1000000000000000000 < 2 ^ 127"
      using r b2 by linarith
    have "i128_of_string ds =
        Inr (if 0 \<le> int (dec_value ?h)
             then s128 (s128 (int (dec_value ?h) * P10_INT64) + int (dec_value ?l))
             else s128 (s128 (int (dec_value ?h) * P10_INT64) - int (dec_value ?l)))"
      using False ns ih il by (intro i128_of_string_long) (simp_all add: E10_INT64_def)
    also have "s128 (int (dec_value ?h) * P10_INT64) = int (dec_value ?h) * 1000000000000000000"
      using b1 by (simp add: P10_INT64_def s128_id)
    finally show ?thesis using r b2 by (simp add: s128_id)
  qed
qed

lemma digit_val_pos: "is_digit c \<Longrightarrow> c \<noteq> CHR ''0'' \<Longrightarrow> 0 < digit_val c"
proof -
  assume c: "is_digit c" and nz: "c \<noteq> CHR ''0''"
  have "of_char c \<noteq> (48::nat)"
  proof
    assume "of_char c = (48::nat)"
    then have "char_of (of_char c :: nat) = char_of (48::nat)" by simp
    then have "c = CHR ''0''" by (simp add: char_of_eq_iff)
    with nz show False by simp
  qed
  with c show ?thesis by (simp add: is_digit_def digit_val_def)
qed

lemma dec_value_Cons: "dec_value (c # cs) = digit_val c * 10 ^ length cs + dec_value cs"
  using dec_value_append [of "[c]" cs] dec_value_snoc [of "[]" c] by (simp add: dec_value_Nil)

lemma dec_value_pos:
  "ds \<noteq> [] \<Longrightarrow> is_digit (hd ds) \<Longrightarrow> hd ds \<noteq> CHR ''0'' \<Longrightarrow> 0 < dec_value ds"
  by (cases ds) (simp_all add: dec_value_Cons digit_val_pos)

lemma digit_char_nonzero: "0 < d \<Longrightarrow> d < 10 \<Longrightarrow> digit_char d \<noteq> CHR ''0''"
  by (simp add: digit_char_def char_of_eq_iff take_bit_eq_mod)

lemma to_string_hd: "0 < n \<Longrightarrow> hd (to_string n) \<noteq> CHR ''0''"
proof (induction n rule: to_string.induct)
  case (1 n)
  show ?case
  proof (cases "n < 10")
    case True
    then show ?thesis using "1.prems" by (simp add: to_string_small digit_char_nonzero)
  next
    case False
    then have "0 < n div 10" by (simp add: div_greater_zero_iff)
    then have "hd (to_string (n div 10)) \<noteq> CHR ''0''" using "1.IH" False by simp
    then show ?thesis using False by (simp add: to_string_large to_string_nonempty)
  qed
qed

lemma i128_of_string_minus_digits:
  "ds \<noteq> [] \<Longrightarrow> list_all is_digit ds \<Longrightarrow> hd ds \<noteq> CHR ''0'' \<Longrightarrow> dec_value ds \<le> 2 ^ 127 \<Longrightarrow>
   i128_of_string (CHR ''-'' # ds) = Inr (- int (dec_value ds))"
proof (induction "length ds" arbitrary: ds rule: less_induct)
  case less
  let ?s = "CHR ''-'' # ds"
  have sg: "is_sign (?s ! 0)" by (simp add: is_sign_def)
  show ?case
  proof (cases "length ds \<le> 18")
    case True
    have "dec_value ds < 10 ^ 18" using less.prems(2) True by (rule dec_value_18)
    then have "stoll ?s = Inr (- int (dec_value ds))"
      using less.prems by (intro minus_digits_stoll) (simp_all add: LLONG_MIN_def)
    then show ?thesis
      using True sg by (simp add: i128_of_string_short E10_INT64_def)
  next
    case False
    let ?h = "take (length ds - 18) ds" and ?l = "drop (length ds - 18) ds"
    have th: "take (length ?s - E10_INT64) ?s = CHR ''-'' # ?h"
      using False by (simp add: E10_INT64_def take_Cons' Suc_diff_le)
    have dl: "drop (length ?s - E10_INT64) ?s = ?l"
      using False by (simp add: E10_INT64_def drop_Cons' Suc_diff_le)
    have v: "dec_value ds = dec_value ?h * 10 ^ 18 + dec_value ?l"
      using False by (intro dec_value_split) simp
    have hne: "?h \<noteq> []" using False by auto
    have hh: "hd ?h = hd ds" using False by (cases ds) (auto simp: take_Cons')
    have hd: "list_all is_digit ?h" using less.prems(2) by (rule list_all_take)
    have hb: "dec_value ?h \<le> 2 ^ 127"
      using dec_value_take_le [of "length ds - 18" ds] less.prems(4) by simp
    have hdd: "is_digit (hd ds)" using less.prems(1,2) by (cases ds) auto
    have hp: "0 < dec_value ?h"
      using hne hh hdd less.prems(3) by (intro dec_value_pos) simp_all
    have ll: "length ?l = 18" using False by simp
    have "dec_value ?l < 10 ^ 18"
      using less.prems(2) ll by (intro dec_value_18) (simp_all add: list_all_drop)
    then have lb: "dec_value ?l < 2 ^ 127" by simp
    have ih: "i128_of_string (CHR ''-'' # ?h) = Inr (- int (dec_value ?h))"
      using False hne hd hh less.prems(3) hb by (intro less.hyps) auto
    have il: "i128_of_string ?l = Inr (int (dec_value ?l))"
      using ll less.prems(2) lb by (intro i128_of_string_digits) (auto simp: list_all_drop)
    have r: "int (dec_value ?h) * 1000000000000000000 + int (dec_value ?l) = int (dec_value ds)"
      by (simp add: v)
    have "int (dec_value ds) \<le> int (2 ^ 127)" using less.prems(4) by (simp only: of_nat_le_iff)
    then have b2: "int (dec_value ds) \<le> 2 ^ 127" by simp
    have b1: "int (dec_value ?h) * 1000000000000000000 \<le> 2 ^ 127"
      using r b2 by linarith
    have neg: "\<not> 0 \<le> - int (dec_value ?h)" using hp by simp
    have "i128_of_string ?s =
        Inr (if 0 \<le> - int (dec_value ?h)
             then s128 (s128 (- int (dec_value ?h) * P10_INT64) + int (dec_value ?l))
             else s128 (s128 (- int (dec_value ?h) * P10_INT64) - int (dec_value ?l)))"
    proof (rule i128_of_string_long)
      show "\<not> length ?s \<le> E10_INT64 + (if is_sign (?s ! 0) then 1 else 0)"
        using False sg by (simp add: E10_INT64_def)
      show "i128_of_string (take (length ?s - E10_INT64) ?s) = Inr (- int (dec_value ?h))"
        using ih by (simp only: th)
      show "i128_of_string (drop (length ?s - E10_INT64) ?s) = Inr (int (dec_value ?l))"
        using il by (simp only: dl)
    qed
    also have "s128 (- int (dec_value ?h) * P10_INT64) = - int (dec_value ?h) * 1000000000000000000"
      using b1 hp by (simp add: P10_INT64_def s128_id)
    finally have "i128_of_string ?s =
        Inr (s128 (- int (dec_value ?h) * 1000000000000000000 - int (dec_value ?l)))"
      using neg by simp
    moreover have "- int (dec_value ?h) * 1000000000000000000 - int (dec_value ?l) = - int (dec_value ds)"
      using r by simp
    moreover have "s128 (- int (dec_value ds)) = - int (dec_value ds)"
      using b2 by (intro s128_id) simp_all
    ultimately show ?thesis by simp
  qed
qed

subsection \<open>The signed formatter writes the plain decimal numeral\<close>

lemma string_of_i128_small:
  "INT64_MIN \<le> i \<and> i \<le> INT64_MAX \<Longrightarrow> string_of_i128 i = to_string_signed i"
  by (subst string_of_i128.simps) simp

lemma string_of_i128_large:
  "\<not> (INT64_MIN \<le> i \<and> i \<le> INT64_MAX) \<Longrightarrow>
   string_of_i128 i =
     string_of_i128 (i sdiv P10_INT64) @
     replicate (E10_INT64 - length (to_string_signed \<bar>i smod P10_INT64\<bar>)) CHR ''0'' @
     to_string_signed \<bar>i smod P10_INT64\<bar>"
  by (subst string_of_i128.simps) (auto simp add: Let_def)

lemma to_string_signed_abs: "to_string_signed \<bar>i\<bar> = to_string (nat \<bar>i\<bar>)"
  by (simp add: to_string_signed_def)

lemma sdiv_P10_abs: "nat \<bar>i sdiv P10_INT64\<bar> = nat \<bar>i\<bar> div 10 ^ 18"
proof -
  have "\<bar>i sdiv P10_INT64\<bar> = \<bar>i\<bar> div 1000000000000000000"
    by (cases "i = 0") (simp_all add: signed_divide_int_def P10_INT64_def abs_mult abs_sgn_eq)
  then show ?thesis by (simp add: nat_div_distrib)
qed

lemma smod_P10_abs: "nat \<bar>i smod P10_INT64\<bar> = nat \<bar>i\<bar> mod 10 ^ 18"
proof -
  have "\<bar>i smod P10_INT64\<bar> = \<bar>i\<bar> mod 1000000000000000000"
    by (cases "i = 0") (simp_all add: signed_modulo_int_def P10_INT64_def abs_mult abs_sgn_eq)
  then show ?thesis by (simp add: nat_mod_distrib)
qed

lemma sdiv_P10_sign: "i sdiv P10_INT64 \<noteq> 0 \<Longrightarrow> (i sdiv P10_INT64 < 0) = (i < 0)"
proof -
  assume nz: "i sdiv P10_INT64 \<noteq> 0"
  have e: "i sdiv P10_INT64 = sgn i * (\<bar>i\<bar> div 1000000000000000000)"
    by (simp add: signed_divide_int_def P10_INT64_def)
  have "0 \<le> \<bar>i\<bar> div 1000000000000000000" by (simp add: pos_imp_zdiv_nonneg_iff)
  moreover have "\<bar>i\<bar> div 1000000000000000000 \<noteq> 0" using nz e by auto
  ultimately have "0 < \<bar>i\<bar> div 1000000000000000000" by linarith
  then show ?thesis
    by (cases "i < 0") (simp_all add: e sgn_if mult_less_0_iff)
qed

lemma out_of_int64_hi: "\<not> (INT64_MIN \<le> i \<and> i \<le> INT64_MAX) \<Longrightarrow> i sdiv P10_INT64 \<noteq> 0"
proof -
  assume out: "\<not> (INT64_MIN \<le> i \<and> i \<le> INT64_MAX)"
  then have "1000000000000000000 \<le> \<bar>i\<bar>" by (auto simp: INT64_MIN_def INT64_MAX_def)
  then have "0 < \<bar>i\<bar> div 1000000000000000000" by (simp add: pos_imp_zdiv_pos_iff)
  moreover have "i \<noteq> 0" using out by (auto simp: INT64_MIN_def INT64_MAX_def)
  ultimately show ?thesis
    by (simp add: signed_divide_int_def P10_INT64_def sgn_if)
qed

lemma to_string_signed_split:
  assumes nz: "i sdiv P10_INT64 \<noteq> 0"
  shows "to_string_signed i =
     to_string_signed (i sdiv P10_INT64) @
     replicate (E10_INT64 - length (to_string_signed \<bar>i smod P10_INT64\<bar>)) CHR ''0'' @
     to_string_signed \<bar>i smod P10_INT64\<bar>"
proof -
  let ?a = "nat \<bar>i\<bar>"
  let ?hi = "i sdiv P10_INT64"
  have "nat \<bar>?hi\<bar> \<noteq> 0" using nz by simp
  then have anz: "?a div 10 ^ 18 \<noteq> 0" unfolding sdiv_P10_abs .
  have sp: "to_string ?a =
      to_string (?a div 10 ^ 18) @
      replicate (18 - length (to_string (?a mod 10 ^ 18))) CHR ''0'' @ to_string (?a mod 10 ^ 18)"
    using anz by (intro to_string_split) simp_all
  have hi: "to_string_signed ?hi =
      (if i < 0 then CHR ''-'' # to_string (?a div 10 ^ 18) else to_string (?a div 10 ^ 18))"
  proof (cases "i < 0")
    case True
    then have "?hi < 0" using sdiv_P10_sign [OF nz] by simp
    then have "to_string_signed ?hi = CHR ''-'' # to_string (nat \<bar>?hi\<bar>)"
      by (simp add: to_string_signed_def abs_if)
    then show ?thesis using True by (simp only: sdiv_P10_abs if_True)
  next
    case nonneg: False
    then have "\<not> ?hi < 0" using sdiv_P10_sign [OF nz] by simp
    then have "to_string_signed ?hi = to_string (nat \<bar>?hi\<bar>)"
      by (simp add: to_string_signed_def abs_if)
    then show ?thesis using nonneg by (simp only: sdiv_P10_abs if_False)
  qed
  have "to_string_signed i = (if i < 0 then CHR ''-'' # to_string ?a else to_string ?a)"
    by (simp add: to_string_signed_def abs_if)
  also have "\<dots> = to_string_signed ?hi @
      replicate (18 - length (to_string (?a mod 10 ^ 18))) CHR ''0'' @ to_string (?a mod 10 ^ 18)"
    by (cases "i < 0") (simp_all only: hi if_True if_False append_Cons sp [symmetric])
  finally show ?thesis
    by (simp only: to_string_signed_abs smod_P10_abs E10_INT64_def)
qed

lemma string_of_i128_eq: "string_of_i128 i = to_string_signed i"
proof (induction i rule: string_of_i128.induct)
  case (1 i)
  show ?case
  proof (cases "INT64_MIN \<le> i \<and> i \<le> INT64_MAX")
    case True
    then show ?thesis by (rule string_of_i128_small)
  next
    case False
    have "string_of_i128 (i sdiv P10_INT64) = to_string_signed (i sdiv P10_INT64)"
      using "1.IH" [OF False refl refl refl refl] .
    then show ?thesis
      using string_of_i128_large [OF False] to_string_signed_split [OF out_of_int64_hi [OF False]]
      by simp
  qed
qed

lemma i128_of_string_string_of_i128:
  assumes "- (2 ^ 127) \<le> i" "i < 2 ^ 127"
  shows "i128_of_string (string_of_i128 i) = Inr i"
proof (cases "i < 0")
  case True
  let ?ds = "to_string (nat (- i))"
  have "int (nat (- i)) \<le> 2 ^ 127" using assms(1) True by simp
  then have "int (nat (- i)) \<le> int (2 ^ 127)" by simp
  then have b: "nat (- i) \<le> 2 ^ 127" by (simp only: of_nat_le_iff)
  have "i128_of_string (CHR ''-'' # ?ds) = Inr (- int (dec_value ?ds))"
    using True b
    by (intro i128_of_string_minus_digits)
       (simp_all add: to_string_nonempty to_string_digits to_string_hd dec_value_to_string)
  then show ?thesis using True
    by (simp add: string_of_i128_eq to_string_signed_def dec_value_to_string)
next
  case False
  let ?ds = "to_string (nat i)"
  have "int (nat i) < 2 ^ 127" using assms(2) False by simp
  then have "int (nat i) < int (2 ^ 127)" by simp
  then have b: "nat i < 2 ^ 127" by (simp only: of_nat_less_iff)
  have "i128_of_string ?ds = Inr (int (dec_value ?ds))"
    using b
    by (intro i128_of_string_digits)
       (simp_all add: to_string_nonempty to_string_digits dec_value_to_string)
  then show ?thesis using False
    by (simp add: string_of_i128_eq to_string_signed_def dec_value_to_string)
qed

subsection \<open>Widths and concrete numerals\<close>

lemma to_string_length: "1 \<le> k \<Longrightarrow> n < 10 ^ k \<Longrightarrow> length (to_string n) \<le> k"
proof (induction n arbitrary: k rule: to_string.induct)
  case (1 n)
  show ?case
  proof (cases "n < 10")
    case True
    then show ?thesis using "1.prems" by (simp add: to_string_small)
  next
    case False
    obtain j where k: "k = Suc j" using "1.prems"(1) by (cases k) auto
    have "j \<noteq> 0" using False "1.prems"(2) k by (cases j) auto
    then have j1: "1 \<le> j" by simp
    have "n div 10 < 10 ^ j" using "1.prems"(2) k by (simp add: less_mult_imp_div_less mult.commute)
    then have "length (to_string (n div 10)) \<le> j" using "1.IH" [OF False j1] by simp
    then show ?thesis using False k by (simp add: to_string_large)
  qed
qed

lemma zero_pad_length:
  "1 \<le> k \<Longrightarrow> n < 10 ^ k \<Longrightarrow>
   length (replicate (k - length (to_string n)) CHR ''0'' @ to_string n) = k"
  using to_string_length [of k n] by simp

lemma smod_P10_bound: "nat \<bar>i smod P10_INT64\<bar> < 10 ^ 18"
  by (simp add: smod_P10_abs)

lemma digit_char_Suc_0: "digit_char (Suc 0) = CHR ''1''"
  using digit_char_numerals(2) by simp

lemma to_string_eval:
  "to_string 0 = ''0''"
  "to_string 18446744073709551615 = ''18446744073709551615''"
  "to_string 18446744073709551616 = ''18446744073709551616''"
  "to_string 10000000000000000005 = ''10000000000000000005''"
  "to_string 10000000000000000000 = ''10000000000000000000''"
  "to_string 1 = ''1''"
  "to_string 123 = ''123''"
  by (simp_all add: to_string_small to_string_large digit_char_numerals digit_char_Suc_0)

lemma string_of_u128_examples:
  "string_of_u128 0 = ''0''"
  "string_of_u128 (2 ^ 64 - 1) = ''18446744073709551615''"
  "string_of_u128 (2 ^ 64) = ''18446744073709551616''"
  by (simp_all add: string_of_u128_eq to_string_eval)

lemma string_of_i128_examples:
  "string_of_i128 (- 1) = ''-1''"
  "string_of_i128 (- (10 ^ 19)) = ''-10000000000000000000''"
  using to_string_eval(6)
  by (simp_all add: string_of_i128_eq to_string_signed_def to_string_eval)

lemma dec_value_zeros: "dec_value (replicate k CHR ''0'') = 0"
  by (induction k) (simp_all add: dec_value_Nil dec_value_Cons digit_val_def)

lemma zero_pad_digits:
  "list_all is_digit (replicate k CHR ''0'' @ to_string n)"
  using to_string_digits [of n] by (auto simp: list_all_iff is_digit_def)

lemma zero_pad_value: "dec_value (replicate k CHR ''0'' @ to_string n) = n"
  by (simp add: dec_value_append dec_value_zeros dec_value_to_string)

section \<open>The round trips\<close>

text \<open>
  C1. Every unsigned 128-bit value \<open>u\<close> (a natural number below \<open>2 ^ 128\<close>) is
  read back by \<open>u128_of_string\<close> from the text \<open>string_of_u128\<close> writes for it.
  The formatter writes \<open>0\<close> as "0", \<open>2 ^ 64 - 1\<close> as "18446744073709551615" and
  \<open>2 ^ 64\<close> as "18446744073709551616".
\<close>

theorem u128_roundtrip:
  "(u < 2 ^ 128 \<longrightarrow> u128_of_string (string_of_u128 u) = Inr u) \<and>
   string_of_u128 0 = ''0'' \<and>
   string_of_u128 (2 ^ 64 - 1) = ''18446744073709551615'' \<and>
   string_of_u128 (2 ^ 64) = ''18446744073709551616''"
  using string_of_u128_examples by (simp add: u128_of_string_string_of_u128)

theorem u128_roundtrip_witness:
  "u128_of_string ''0'' = Inr 0 \<and>
   u128_of_string ''18446744073709551615'' = Inr (2 ^ 64 - 1) \<and>
   u128_of_string ''18446744073709551616'' = Inr (2 ^ 64)"
  using u128_roundtrip [of 0] u128_roundtrip [of "2 ^ 64 - 1"] u128_roundtrip [of "2 ^ 64"]
  by simp

text \<open>
  C2. Every signed 128-bit value \<open>i\<close>, from \<open>- 2 ^ 127\<close> to \<open>2 ^ 127 - 1\<close>, is read
  back by \<open>i128_of_string\<close> from the text \<open>string_of_i128\<close> writes for it.  The split
  of the parser never falls right after the sign, because a signed string is split only
  when it is longer than 19 characters, and the high part of a negative value is never
  zero.  The formatter writes \<open>- 1\<close> as "-1" and \<open>- 10 ^ 19\<close> as
  "-10000000000000000000".
\<close>

theorem i128_roundtrip:
  "(- (2 ^ 127) \<le> i \<and> i \<le> 2 ^ 127 - 1 \<longrightarrow> i128_of_string (string_of_i128 i) = Inr i) \<and>
   string_of_i128 (- 1) = ''-1'' \<and>
   string_of_i128 (- (10 ^ 19)) = ''-10000000000000000000''"
  using string_of_i128_examples by (simp add: i128_of_string_string_of_i128)

theorem i128_roundtrip_witness:
  "i128_of_string ''-1'' = Inr (- 1) \<and>
   i128_of_string ''-10000000000000000000'' = Inr (- (10 ^ 19)) \<and>
   i128_of_string (string_of_i128 (- (2 ^ 127))) = Inr (- (2 ^ 127)) \<and>
   i128_of_string (string_of_i128 (2 ^ 127 - 1)) = Inr (2 ^ 127 - 1)"
  using i128_roundtrip [of "- 1"] i128_roundtrip [of "- (10 ^ 19)"]
    i128_roundtrip [of "- (2 ^ 127)"] i128_roundtrip [of "2 ^ 127 - 1"]
  by simp

section \<open>Zero padding of the low chunk\<close>

text \<open>
  C3. Whenever the high part \<open>u div P10_UINT64\<close> (unsigned) or
  \<open>i sdiv P10_INT64\<close> (signed) is not zero, the text is the text of the high part
  followed by the low chunk, and the low chunk is exactly 19 (unsigned) or 18 (signed)
  decimal digits: the digits of the low value (of its magnitude, when signed) with
  zeros on their left, so that the chunk still denotes the low value.  The recursive
  branch of each formatter is taken only with a nonzero high part.  The value
  \<open>10 ^ 19 + 5\<close> is written "10000000000000000005", not "100000000000000005".
\<close>

theorem zero_padding:
  "(UINT64_MAX < u \<longrightarrow> u div P10_UINT64 \<noteq> 0) \<and>
   (u div P10_UINT64 \<noteq> 0 \<longrightarrow>
      (let lo = u mod P10_UINT64;
           ss = to_string lo;
           low = replicate (E10_UINT64 - length ss) CHR ''0'' @ ss
       in string_of_u128 u = string_of_u128 (u div P10_UINT64) @ low \<and>
          length low = 19 \<and> list_all is_digit low \<and> dec_value low = lo)) \<and>
   (\<not> (INT64_MIN \<le> i \<and> i \<le> INT64_MAX) \<longrightarrow> i sdiv P10_INT64 \<noteq> 0) \<and>
   (i sdiv P10_INT64 \<noteq> 0 \<longrightarrow>
      (let lo = i smod P10_INT64;
           ss = to_string_signed \<bar>lo\<bar>;
           low = replicate (E10_INT64 - length ss) CHR ''0'' @ ss
       in string_of_i128 i = string_of_i128 (i sdiv P10_INT64) @ low \<and>
          length low = 18 \<and> list_all is_digit low \<and> int (dec_value low) = \<bar>lo\<bar>)) \<and>
   string_of_u128 (10 ^ 19 + 5) = ''10000000000000000005'' \<and>
   string_of_u128 (10 ^ 19 + 5) \<noteq> ''100000000000000005''"
proof -
  have a: "UINT64_MAX < u \<longrightarrow> u div P10_UINT64 \<noteq> 0"
    by (simp add: UINT64_MAX_def P10_UINT64_def div_eq_0_iff)
  have b: "string_of_u128 u =
        string_of_u128 (u div P10_UINT64) @
        replicate (E10_UINT64 - length (to_string (u mod P10_UINT64))) CHR ''0'' @
        to_string (u mod P10_UINT64)" if "u div P10_UINT64 \<noteq> 0"
    using to_string_split [of 19 u] that
    by (simp add: string_of_u128_eq P10_UINT64_def E10_UINT64_def)
  have c: "length (replicate (E10_UINT64 - length (to_string (u mod P10_UINT64))) CHR ''0'' @
              to_string (u mod P10_UINT64)) = 19"
    using zero_pad_length [of 19 "u mod 10 ^ 19"] by (simp add: P10_UINT64_def E10_UINT64_def)
  have d: "\<not> (INT64_MIN \<le> i \<and> i \<le> INT64_MAX) \<longrightarrow> i sdiv P10_INT64 \<noteq> 0"
    using out_of_int64_hi by blast
  have e: "string_of_i128 i =
        string_of_i128 (i sdiv P10_INT64) @
        replicate (E10_INT64 - length (to_string_signed \<bar>i smod P10_INT64\<bar>)) CHR ''0'' @
        to_string_signed \<bar>i smod P10_INT64\<bar>" if "i sdiv P10_INT64 \<noteq> 0"
    using to_string_signed_split [OF that] by (simp add: string_of_i128_eq)
  have f: "length (replicate (E10_INT64 - length (to_string_signed \<bar>i smod P10_INT64\<bar>)) CHR ''0'' @
              to_string_signed \<bar>i smod P10_INT64\<bar>) = 18"
    using zero_pad_length [of 18 "nat \<bar>i smod P10_INT64\<bar>"] smod_P10_bound [of i]
    by (simp add: to_string_signed_abs E10_INT64_def)
  have g: "string_of_u128 (10 ^ 19 + 5) = ''10000000000000000005''"
    by (simp add: string_of_u128_eq to_string_eval)
  have h: "int (dec_value (replicate k CHR ''0'' @ to_string_signed \<bar>j\<bar>)) = \<bar>j\<bar>" for k j
    by (simp add: to_string_signed_abs zero_pad_value)
  have d1: "list_all is_digit (replicate k CHR ''0'' @ to_string_signed \<bar>j\<bar>)" for k j
    by (simp only: to_string_signed_abs zero_pad_digits)
  show ?thesis
    unfolding Let_def
    using a b c d e f g h d1 zero_pad_digits zero_pad_value by simp
qed

theorem zero_padding_witness:
  "string_of_u128 (2 ^ 64) = string_of_u128 1 @ ''8446744073709551616'' \<and>
   string_of_i128 (- (10 ^ 19)) = string_of_i128 (- 10) @ ''000000000000000000''"
proof -
  have u: "(18446744073709551616 :: nat) div P10_UINT64 = Suc 0"
    "(18446744073709551616 :: nat) mod P10_UINT64 = 8446744073709551616"
    by (simp_all add: P10_UINT64_def)
  have i: "(10000000000000000000 :: int) sdiv P10_INT64 = 10"
    "(10000000000000000000 :: int) smod P10_INT64 = 0"
    by (simp_all add: P10_INT64_def signed_divide_int_def signed_modulo_int_def)
  have t: "to_string 8446744073709551616 = ''8446744073709551616''"
    by (simp add: to_string_small to_string_large digit_char_numerals digit_char_Suc_0)
  have r: "replicate 17 CHR ''0'' = ''00000000000000000''"
    by (simp add: eval_nat_numeral)
  show ?thesis
    using zero_padding [of "2 ^ 64" "- (10 ^ 19)"]
    by (simp add: u i t r E10_UINT64_def E10_INT64_def to_string_signed_def to_string_eval Let_def)
qed

subsection \<open>Digit strings that denote more than 128 bits\<close>

text \<open>
  \<open>u128_of_string\<close> does not detect a numeral that exceeds the unsigned range: on
  every nonempty string of digits it returns the denoted value reduced modulo
  \<open>2 ^ 128\<close>.
\<close>

theorem u128_of_string_wraps:
  "ds \<noteq> [] \<and> list_all is_digit ds \<longrightarrow> u128_of_string ds = Inr (dec_value ds mod 2 ^ 128)"
  using u128_of_string_digits [of ds] by (simp add: u128_def)

theorem u128_of_string_wraps_witness:
  "u128_of_string (to_string (2 ^ 128)) = Inr 0 \<and>
   u128_of_string (to_string (2 ^ 128 + 7)) = Inr 7"
  using u128_of_string_wraps [of "to_string (2 ^ 128)"]
    u128_of_string_wraps [of "to_string (2 ^ 128 + 7)"]
  by (simp add: to_string_nonempty to_string_digits dec_value_to_string)

section \<open>The incremental parsers and the failures of parsing\<close>

subsection \<open>The digit loop\<close>

lemma scan_digits_stop:
  "\<not> (count < length r \<and> is_digit (r ! count)) \<Longrightarrow> scan_digits r count = count"
  by (subst scan_digits.simps) auto

lemma scan_digits_step:
  "count < length r \<Longrightarrow> is_digit (r ! count) \<Longrightarrow> scan_digits r count = scan_digits r (Suc count)"
  by (subst scan_digits.simps) simp

lemma scan_digits_eq:
  "count \<le> length r \<Longrightarrow>
   scan_digits r count = count + length (takeWhile is_digit (drop count r))"
proof (induction r count rule: scan_digits.induct)
  case (1 r count)
  show ?case
  proof (cases "count < length r \<and> is_digit (r ! count)")
    case True
    then have d: "drop count r = r ! count # drop (Suc count) r"
      by (simp add: Cons_nth_drop_Suc)
    have "scan_digits r count = scan_digits r (Suc count)"
      using True by (simp add: scan_digits_step)
    also have "\<dots> = Suc count + length (takeWhile is_digit (drop (Suc count) r))"
      using "1.IH" True by simp
    finally show ?thesis using True by (simp add: d)
  next
    case False
    have "takeWhile is_digit (drop count r) = []"
    proof (cases "count < length r")
      case True
      then have "drop count r = r ! count # drop (Suc count) r"
        by (simp add: Cons_nth_drop_Suc)
      then show ?thesis using False True by simp
    next
      case False
      then show ?thesis by simp
    qed
    then show ?thesis using False by (simp add: scan_digits_stop)
  qed
qed

lemma takeWhile_digits_prefix:
  "list_all is_digit ds \<Longrightarrow> rest = [] \<or> \<not> is_digit (hd rest) \<Longrightarrow>
   takeWhile is_digit (ds @ rest) = ds"
proof (induction ds)
  case Nil
  then show ?case by (cases rest) simp_all
next
  case (Cons d ds)
  then show ?case by simp
qed

lemma is_digit_eval:
  "is_digit CHR ''0''" "is_digit CHR ''1''" "is_digit CHR ''2''" "is_digit CHR ''3''"
  "is_digit CHR ''4''" "is_digit CHR ''5''" "is_digit CHR ''6''" "is_digit CHR ''7''"
  "is_digit CHR ''8''" "is_digit CHR ''9''" "\<not> is_digit CHR ''a''" "\<not> is_digit CHR ''+''"
  "\<not> is_digit CHR ''-''"
  by (simp_all add: is_digit_def)

lemma i128_of_string_123:
  "i128_of_string ''123'' = Inr 123" "i128_of_string ''+123'' = Inr 123"
  by (simp_all add: i128_of_string_short E10_INT64_def stoll_def strip_sign_def has_minus_def
      is_sign_def isspace_def is_digit_eval dec_value_def digit_val_def LLONG_MIN_def LLONG_MAX_def)

subsection \<open>Inputs without digits\<close>

lemma stoll_sign_only: "is_sign c \<Longrightarrow> stoll [c] = Inl Invalid_argument"
  by (auto simp: stoll_def strip_sign_def is_sign_def isspace_def)

lemma stoull_sign_only: "is_sign c \<Longrightarrow> stoull [c] = Inl Invalid_argument"
  by (auto simp: stoull_def strip_sign_def is_sign_def isspace_def)

lemma i128_of_string_sign_only: "is_sign c \<Longrightarrow> i128_of_string [c] = Inl Invalid_argument"
  by (simp add: i128_of_string_short E10_INT64_def stoll_sign_only)

lemma u128_of_string_sign_only: "is_sign c \<Longrightarrow> u128_of_string [c] = Inl Invalid_argument"
  by (subst u128_of_string.simps) (simp add: E10_UINT64_def stoull_sign_only)

lemma i128_of_string_empty: "i128_of_string [] = Inl Assertion_failed"
  by (subst i128_of_string.simps) simp

lemma u128_of_string_empty: "u128_of_string [] = Inl Assertion_failed"
  by (subst u128_of_string.simps) simp

lemma i128_from_chars_sign_no_digit:
  assumes "is_sign c" "rest = [] \<or> \<not> is_digit (hd rest)"
  shows "i128_from_chars (c # rest) = Inl Invalid_argument"
proof -
  have "takeWhile is_digit rest = []" using assms(2) by (cases rest) auto
  then have "scan_digits (c # rest) 1 = 1"
    using scan_digits_eq [of 1 "c # rest"] by simp
  then show ?thesis
    using assms(1) by (simp add: i128_from_chars_def i128_of_string_sign_only)
qed

lemma u128_from_chars_sign: "is_sign c \<Longrightarrow> u128_from_chars (c # rest) = Inl Assertion_failed"
proof -
  assume "is_sign c"
  then have "\<not> is_digit c" by (auto simp: is_sign_def is_digit_def)
  then have "scan_digits (c # rest) 0 = 0"
    using scan_digits_eq [of 0 "c # rest"] by simp
  then show ?thesis by (simp add: u128_from_chars_def)
qed

lemma from_chars_empty:
  "i128_from_chars [] = Inl Assertion_failed" "u128_from_chars [] = Inl Assertion_failed"
  by (simp_all add: i128_from_chars_def u128_from_chars_def)

subsection \<open>What the signed incremental parser consumes\<close>

text \<open>
  On a range that starts with a run of digits, \<open>i128_from_chars\<close> consumes the run; on
  a range that starts with one sign character and a run of digits, it consumes the sign
  and the run.  The value is the result of \<open>i128_of_string\<close> on the consumed characters.
\<close>

lemma i128_from_chars_unsigned_run:
  assumes "ds \<noteq> []" "list_all is_digit ds" "rest = [] \<or> \<not> is_digit (hd rest)"
  shows "i128_from_chars (ds @ rest) =
         (case i128_of_string ds of Inl e \<Rightarrow> Inl e | Inr v \<Rightarrow> Inr (length ds, v))"
proof -
  from assms obtain c cs where ds: "ds = c # cs" and c: "is_digit c"
    by (cases ds) auto
  have ns: "\<not> is_sign ((ds @ rest) ! 0)" using ds is_digit_not_other [OF c] by simp
  have "scan_digits (ds @ rest) 0 = length ds"
    using scan_digits_eq [of 0 "ds @ rest"] takeWhile_digits_prefix [OF assms(2,3)] by simp
  then show ?thesis using ns assms(1) by (simp add: i128_from_chars_def)
qed

lemma i128_from_chars_signed_run:
  assumes "is_sign c" "ds \<noteq> []" "list_all is_digit ds" "rest = [] \<or> \<not> is_digit (hd rest)"
  shows "i128_from_chars (c # ds @ rest) =
         (case i128_of_string (c # ds) of Inl e \<Rightarrow> Inl e | Inr v \<Rightarrow> Inr (Suc (length ds), v))"
proof -
  have "scan_digits (c # ds @ rest) 1 = 1 + length ds"
    using scan_digits_eq [of 1 "c # ds @ rest"] takeWhile_digits_prefix [OF assms(3,4)] by simp
  then show ?thesis using assms(1) by (simp add: i128_from_chars_def)
qed

lemma i128_from_chars_signed_run_witness:
  "i128_from_chars ''+123'' = Inr (4, 123)"
  using i128_from_chars_signed_run [of "CHR ''+''" "''123''" "[]"]
  by (simp add: is_sign_def is_digit_eval i128_of_string_123)

text \<open>
  The sign is lost when the high part of a split string reads as zero: the string
  "-0000000000000000001" is split into "-0" and eighteen digits, the high part is \<open>0\<close>,
  which is not negative, and the low part is added instead of subtracted.
\<close>

lemma i128_of_string_minus_zero_high:
  "i128_of_string ''-0000000000000000001'' = Inr 1"
proof -
  let ?s = "''-0000000000000000001''"
  have len: "length ?s = 20" by simp
  have hi: "i128_of_string ''-0'' = Inr 0"
    by (simp add: i128_of_string_short E10_INT64_def stoll_def strip_sign_def has_minus_def
        is_sign_def isspace_def is_digit_eval dec_value_def digit_val_def LLONG_MIN_def LLONG_MAX_def)
  have lo: "i128_of_string ''000000000000000001'' = Inr 1"
    by (simp add: i128_of_string_short E10_INT64_def stoll_def strip_sign_def has_minus_def
        is_sign_def isspace_def is_digit_eval dec_value_def digit_val_def LLONG_MIN_def LLONG_MAX_def)
  have t: "take (length ?s - E10_INT64) ?s = ''-0''"
    unfolding len E10_INT64_def by simp
  have d: "drop (length ?s - E10_INT64) ?s = ''000000000000000001''"
    unfolding len E10_INT64_def by simp
  have c: "\<not> length ?s \<le> E10_INT64 + (if is_sign (?s ! 0) then 1 else 0)"
    unfolding len E10_INT64_def by (simp add: is_sign_def)
  have "i128_of_string ?s =
        Inr (if 0 \<le> (0::int) then s128 (s128 (0 * P10_INT64) + 1)
             else s128 (s128 (0 * P10_INT64) - 1))"
    using c by (rule i128_of_string_long) (simp_all only: t d hi lo)
  then show ?thesis by (simp add: s128_def)
qed

text \<open>
  C4. On "123abc" both incremental parsers return 3 and store 123.  On "+123" the
  signed parser consumes the sign and the three digits (it returns 4 and stores 123),
  but \<open>u128_from_chars\<close> does not: its loop starts again from \<open>count = 0\<close>, stops at
  the sign with no character consumed, and the assertion \<open>count > 0\<close> fails.
\<close>

theorem u128_from_chars_drops_sign:
  "i128_from_chars ''123abc'' = Inr (3, 123) \<and>
   u128_from_chars ''123abc'' = Inr (3, 123) \<and>
   i128_from_chars ''+123'' = Inr (4, 123) \<and>
   u128_from_chars ''+123'' = Inl Assertion_failed"
proof -
  have a: "scan_digits ''123abc'' 0 = 3"
    using scan_digits_eq [of 0 "''123abc''"] by (simp add: is_digit_eval)
  have b: "scan_digits ''+123'' (Suc 0) = 4"
    using scan_digits_eq [of 1 "''+123''"] by (simp add: is_digit_eval)
  have c: "uint128_of_int128 123 = 123" by (simp add: uint128_of_int128_def)
  have "i128_from_chars ''123abc'' = Inr (3, 123)"
    by (simp add: i128_from_chars_def a i128_of_string_123 is_sign_def)
  moreover have "u128_from_chars ''123abc'' = Inr (3, 123)"
    by (simp add: u128_from_chars_def a c i128_of_string_123)
  moreover have "i128_from_chars ''+123'' = Inr (4, 123)"
    by (simp add: i128_from_chars_def b i128_of_string_123 is_sign_def)
  moreover have "u128_from_chars ''+123'' = Inl Assertion_failed"
    by (rule u128_from_chars_sign) (simp add: is_sign_def)
  ultimately show ?thesis by simp
qed

text \<open>
  C5, as stated, fails at the empty input: each of the four operations stops at its
  first assertion, which aborts the process and is not a recoverable failure.
\<close>

theorem parse_empty_aborts:
  "i128_of_string [] = Inl Assertion_failed \<and> u128_of_string [] = Inl Assertion_failed \<and>
   i128_from_chars [] = Inl Assertion_failed \<and> u128_from_chars [] = Inl Assertion_failed \<and>
   \<not> recoverable Assertion_failed"
  by (simp add: i128_of_string_empty u128_of_string_empty from_chars_empty recoverable_def)

text \<open>
  C5, as the code has it.  On the empty input the two parsers and the two incremental
  parsers fail their assertion (an abort).  On a lone sign character \<open>i128_of_string\<close>
  and \<open>u128_of_string\<close> end with the \<open>std::invalid_argument\<close> exception of the
  standard conversion, and so does \<open>i128_from_chars\<close> on a range that starts with a sign
  character not followed by a digit; this exception is recoverable.
\<close>

theorem parse_failure_modes:
  "i128_of_string [] = Inl Assertion_failed \<and> u128_of_string [] = Inl Assertion_failed \<and>
   i128_from_chars [] = Inl Assertion_failed \<and> u128_from_chars [] = Inl Assertion_failed \<and>
   \<not> recoverable Assertion_failed \<and> recoverable Invalid_argument \<and>
   (is_sign c \<longrightarrow>
      i128_of_string [c] = Inl Invalid_argument \<and> u128_of_string [c] = Inl Invalid_argument) \<and>
   (is_sign c \<and> (rest = [] \<or> \<not> is_digit (hd rest)) \<longrightarrow>
      i128_from_chars (c # rest) = Inl Invalid_argument)"
  using i128_from_chars_sign_no_digit [of c rest]
  by (simp add: i128_of_string_empty u128_of_string_empty from_chars_empty recoverable_def
      i128_of_string_sign_only u128_of_string_sign_only)

theorem parse_failure_modes_witness:
  "i128_of_string ''-'' = Inl Invalid_argument \<and> u128_of_string ''-'' = Inl Invalid_argument \<and>
   i128_from_chars ''-abc'' = Inl Invalid_argument \<and> i128_from_chars ''-'' = Inl Invalid_argument"
  using parse_failure_modes [of "CHR ''-''" "''abc''"] parse_failure_modes [of "CHR ''-''" "[]"]
  by (simp add: is_sign_def is_digit_eval)

section \<open>Views on bytes\<close>

lemma slice_eq_take_drop:
  "off + n \<le> length xs \<Longrightarrow> map (\<lambda>i. xs ! (off + i)) [0..<n] = take n (drop off xs)"
  by (rule nth_equalityI) simp_all

lemma toString_in_range:
  "offset b + size_b b \<le> length (buffer b) \<Longrightarrow>
   toString b = Some (take (size_b b) (drop (offset b) (buffer b)))"
  by (simp add: toString_def slice_eq_take_drop)

lemma toString_Bytes_of_string: "toString (Bytes_of_string s) = Some s"
  by (simp add: toString_in_range Bytes_of_string_def)

lemma toString_hello: "toString (Bytes_of_buffer ''hello'' 3 2) = Some ''llo''"
  by (simp add: toString_in_range Bytes_of_buffer_def)

text \<open>
  C6, as stated, fails: the constructor with offset 3 and size 5 on the five bytes of
  "hello" returns a view with these fields, although \<open>3 + 5\<close> exceeds the capacity;
  \<open>toString\<close> on this view reads outside the storage.
\<close>

theorem Bytes_of_buffer_out_of_range:
  "Bytes_of_buffer ''hello'' 5 3 = \<lparr>buffer = ''hello'', size_b = 5, offset = 3\<rparr> \<and>
   length ''hello'' < 3 + (5::nat) \<and>
   toString (Bytes_of_buffer ''hello'' 5 3) = None"
  by (simp add: Bytes_of_buffer_def toString_def)

text \<open>
  C6, as the code has it.  The constructor checks nothing: for every storage, size and
  offset it returns the view that holds exactly these three; when offset plus size
  exceeds the capacity of the storage, \<open>toString\<close> on the view has no defined result.
\<close>

theorem Bytes_of_buffer_unchecked:
  "buffer (Bytes_of_buffer b s off) = b \<and>
   size_b (Bytes_of_buffer b s off) = s \<and>
   offset (Bytes_of_buffer b s off) = off \<and>
   (length b < off + s \<longrightarrow> toString (Bytes_of_buffer b s off) = None)"
  by (simp add: Bytes_of_buffer_def toString_def)

theorem Bytes_of_buffer_unchecked_witness:
  "buffer (Bytes_of_buffer ''hello'' 5 3) = ''hello'' \<and>
   size_b (Bytes_of_buffer ''hello'' 5 3) = 5 \<and>
   offset (Bytes_of_buffer ''hello'' 5 3) = 3 \<and>
   toString (Bytes_of_buffer ''hello'' 5 3) = None"
  using Bytes_of_buffer_unchecked [of "''hello''" 5 3] by simp

text \<open>
  C7. For every \<open>Bytes\<close> that satisfies the invariant of the data model (offset plus
  size at most the capacity of the storage), \<open>toString\<close> returns exactly the bytes at
  the positions from \<open>offset\<close> up to, not including, \<open>offset + size\<close>.  The \<open>Bytes\<close> built from a string \<open>s\<close> has
  offset 0 and size \<open>length s\<close>, and \<open>toString\<close> gives \<open>s\<close> back.  The view with offset
  2 and size 3 on "hello" gives "llo".
\<close>

theorem toString_slice:
  "(offset b + size_b b \<le> length (buffer b) \<longrightarrow>
      toString b = Some (take (size_b b) (drop (offset b) (buffer b)))) \<and>
   offset (Bytes_of_string s) = 0 \<and>
   size_b (Bytes_of_string s) = length s \<and>
   toString (Bytes_of_string s) = Some s \<and>
   toString (Bytes_of_buffer ''hello'' 3 2) = Some ''llo''"
  using toString_hello
  by (simp add: toString_in_range toString_Bytes_of_string Bytes_of_string_def)

theorem toString_slice_witness:
  "toString \<lparr>buffer = ''hello'', size_b = 3, offset = 2\<rparr> = Some ''llo'' \<and>
   toString (Bytes_of_string ''hello'') = Some ''hello''"
  using toString_slice [of "\<lparr>buffer = ''hello'', size_b = 3, offset = 2\<rparr>" "''hello''"]
  by (simp add: Bytes_of_buffer_def)

section \<open>SimpleSet and SlidingWindow\<close>

lemma SimpleSet_l_inserts:
  "SimpleSet_l (foldl SimpleSet_insert s xs) = SimpleSet_l s @ xs"
  by (induction xs arbitrary: s) (simp_all add: SimpleSet_insert_def)

lemma SlidingWindow_l_inserts:
  "SlidingWindow_l (foldl SlidingWindow_insert s xs) = SlidingWindow_l s @ xs"
  by (induction xs arbitrary: s) (simp_all add: SlidingWindow_insert_def)

lemma SimpleSet_l_fresh: "SimpleSet_l (foldl SimpleSet_insert SimpleSet_new xs) = xs"
  by (simp add: SimpleSet_l_inserts SimpleSet_new_def)

lemma SlidingWindow_l_fresh: "SlidingWindow_l (foldl SlidingWindow_insert SlidingWindow_new xs) = xs"
  by (simp add: SlidingWindow_l_inserts SlidingWindow_new_def)

text \<open>
  C8. After the same sequence of \<open>insert\<close> calls on a fresh \<open>SlidingWindow\<close> and on a
  fresh \<open>SimpleSet\<close>, \<open>size\<close> returns the same number and \<open>lastUpdate\<close> the same
  result (for the empty sequence neither has a defined result); both hold the same
  list, so the window has evicted nothing.
\<close>

theorem SlidingWindow_equals_SimpleSet:
  "SlidingWindow_size (foldl SlidingWindow_insert SlidingWindow_new xs) =
     SimpleSet_size (foldl SimpleSet_insert SimpleSet_new xs) \<and>
   SlidingWindow_lastUpdate (foldl SlidingWindow_insert SlidingWindow_new xs) =
     SimpleSet_lastUpdate (foldl SimpleSet_insert SimpleSet_new xs) \<and>
   SlidingWindow_l (foldl SlidingWindow_insert SlidingWindow_new xs) =
     SimpleSet_l (foldl SimpleSet_insert SimpleSet_new xs)"
  by (simp add: SlidingWindow_size_def SimpleSet_size_def SlidingWindow_lastUpdate_def
      SimpleSet_lastUpdate_def SimpleSet_l_fresh SlidingWindow_l_fresh)

theorem SlidingWindow_equals_SimpleSet_witness:
  "SlidingWindow_size (foldl SlidingWindow_insert SlidingWindow_new [1, 2, 3 :: nat]) = 3 \<and>
   SlidingWindow_lastUpdate (foldl SlidingWindow_insert SlidingWindow_new [1, 2, 3 :: nat]) =
     Some (3, [])"
  using SlidingWindow_equals_SimpleSet [of "[1, 2, 3 :: nat]"]
  by (simp add: SimpleSet_size_def SimpleSet_lastUpdate_def SimpleSet_insert_def SimpleSet_new_def)

text \<open>
  C9, as stated, fails for \<open>size\<close>: after \<open>2 ^ 32\<close> insertions the list holds
  \<open>2 ^ 32\<close> elements and \<open>size\<close>, whose result type is \<open>uint32_t\<close>, returns 0.
\<close>

theorem size_wraps_at_uint32:
  "SimpleSet_size (foldl SimpleSet_insert SimpleSet_new (replicate (2 ^ 32) ())) = 0 \<and>
   SlidingWindow_size (foldl SlidingWindow_insert SlidingWindow_new (replicate (2 ^ 32) ())) = 0 \<and>
   length (replicate (2 ^ 32) ()) = 2 ^ 32"
  by (simp add: SimpleSet_size_def SlidingWindow_size_def SimpleSet_l_fresh SlidingWindow_l_fresh)

text \<open>
  C9, as the code has it.  \<open>insert\<close> appends at the young end.  After inserting
  \<open>xs\<close> in order into a fresh \<open>SimpleSet\<close> or \<open>SlidingWindow\<close>, \<open>size\<close> returns
  \<open>length xs\<close> reduced modulo \<open>2 ^ 32\<close>, which is \<open>length xs\<close> itself below
  \<open>2 ^ 32\<close>; when \<open>xs\<close> is not empty, \<open>lastUpdate\<close> returns its last element with an
  empty list.  Both are functions of the structure alone, so a repeated call returns
  the same result.
\<close>

theorem inserts_size_lastUpdate:
  "SimpleSet_l (SimpleSet_insert s (x :: 'a)) = SimpleSet_l s @ [x] \<and>
   SlidingWindow_l (SlidingWindow_insert w x) = SlidingWindow_l w @ [x] \<and>
   SimpleSet_size (foldl SimpleSet_insert SimpleSet_new (xs :: 'a list)) = length xs mod 2 ^ 32 \<and>
   SlidingWindow_size (foldl SlidingWindow_insert SlidingWindow_new xs) = length xs mod 2 ^ 32 \<and>
   (length xs < 2 ^ 32 \<longrightarrow>
      SimpleSet_size (foldl SimpleSet_insert SimpleSet_new xs) = length xs \<and>
      SlidingWindow_size (foldl SlidingWindow_insert SlidingWindow_new xs) = length xs) \<and>
   (xs \<noteq> [] \<longrightarrow>
      SimpleSet_lastUpdate (foldl SimpleSet_insert SimpleSet_new xs) = Some (last xs, []) \<and>
      SlidingWindow_lastUpdate (foldl SlidingWindow_insert SlidingWindow_new xs) =
        Some (last xs, []))"
  by (simp add: SimpleSet_size_def SlidingWindow_size_def SimpleSet_lastUpdate_def
      SlidingWindow_lastUpdate_def SimpleSet_l_fresh SlidingWindow_l_fresh
      SimpleSet_insert_def SlidingWindow_insert_def)

theorem inserts_size_lastUpdate_witness:
  "SimpleSet_size (foldl SimpleSet_insert SimpleSet_new [10, 20, 30 :: nat]) = 3 \<and>
   SlidingWindow_size (foldl SlidingWindow_insert SlidingWindow_new [10, 20, 30 :: nat]) = 3 \<and>
   SimpleSet_lastUpdate (foldl SimpleSet_insert SimpleSet_new [10, 20, 30 :: nat]) = Some (30, []) \<and>
   SlidingWindow_lastUpdate (foldl SlidingWindow_insert SlidingWindow_new [10, 20, 30 :: nat]) =
     Some (30, [])"
  using inserts_size_lastUpdate [of SimpleSet_new 10 SlidingWindow_new "[10, 20, 30 :: nat]"]
  by simp

text \<open>
  C10. \<open>lastUpdate\<close> has a defined result exactly when the list is not empty: on a
  fresh \<open>SimpleSet\<close> or \<open>SlidingWindow\<close> it has none, and whenever \<open>size\<close> returns at
  least 1 it returns the last element with an empty list.
\<close>

theorem lastUpdate_needs_nonempty:
  "SimpleSet_lastUpdate (SimpleSet_new :: 'a SimpleSet) = None \<and>
   SlidingWindow_lastUpdate (SlidingWindow_new :: 'a SlidingWindow) = None \<and>
   (SimpleSet_lastUpdate (s :: 'a SimpleSet) = None) = (SimpleSet_l s = []) \<and>
   (SlidingWindow_lastUpdate (w :: 'a SlidingWindow) = None) = (SlidingWindow_l w = []) \<and>
   (1 \<le> SimpleSet_size s \<longrightarrow> SimpleSet_lastUpdate s = Some (last (SimpleSet_l s), [])) \<and>
   (1 \<le> SlidingWindow_size w \<longrightarrow>
      SlidingWindow_lastUpdate w = Some (last (SlidingWindow_l w), []))"
  by (auto simp: SimpleSet_lastUpdate_def SlidingWindow_lastUpdate_def SimpleSet_new_def
      SlidingWindow_new_def SimpleSet_size_def SlidingWindow_size_def)

theorem lastUpdate_needs_nonempty_witness:
  "SimpleSet_lastUpdate (SimpleSet [5, 6 :: nat]) = Some (6, []) \<and>
   SlidingWindow_lastUpdate (SlidingWindow [5, 6 :: nat]) = Some (6, [])"
  using lastUpdate_needs_nonempty [of "SimpleSet [5, 6 :: nat]" "SlidingWindow [5, 6 :: nat]"]
  by (simp add: SimpleSet_size_def SlidingWindow_size_def)

end
